theory Spec2Isabelle
  imports Complex_Main "HOL-Library.AList" "HOL-Library.Char_ord" "HOL-Library.List_Lexorder"
begin

section \<open>Documents\<close>

text \<open>
  A loaded document is what \<^verbatim>\<open>json.load\<close> (or \<^verbatim>\<open>csv.DictReader\<close>) hands to
  \<^verbatim>\<open>FuzzyJSONSearcher\<close>: \<^verbatim>\<open>None\<close>, booleans, integers, floats, strings, lists and
  dicts. A dict is kept as the list of its items in insertion order; Python guarantees
  that its keys are distinct (part of \<open>well_keyed\<close> below). The only thing the program ever does
  with a float is to test its truth value and to call \<^verbatim>\<open>str\<close> on it, so a float is
  carried by the text \<^verbatim>\<open>str\<close> prints for it.
\<close>

datatype json =
    JNull
  | JBool bool
  | JInt int
  | JFloat string
  | JStr string
  | JArr "json list"
  | JObj "(string \<times> json) list"

text \<open>\<^verbatim>\<open>isinstance(v, (dict, list))\<close>\<close>

fun is_composite :: "json \<Rightarrow> bool" where
  "is_composite (JArr xs) = True"
| "is_composite (JObj kvs) = True"
| "is_composite v = False"

text \<open>Python's truth value of a document, as tested by \<^verbatim>\<open>if self.data:\<close>.\<close>

fun truthy :: "json \<Rightarrow> bool" where
  "truthy JNull = False"
| "truthy (JBool b) = b"
| "truthy (JInt i) = (i \<noteq> 0)"
| "truthy (JFloat r) = (r \<noteq> ''0.0'' \<and> r \<noteq> ''-0.0'')"
| "truthy (JStr s) = (s \<noteq> [])"
| "truthy (JArr xs) = (xs \<noteq> [])"
| "truthy (JObj kvs) = (kvs \<noteq> [])"

subsection \<open>\<^verbatim>\<open>str\<close> of a scalar\<close>

definition digit_char :: "nat \<Rightarrow> char" where
  "digit_char d = char_of (48 + d)"

fun str_nat :: "nat \<Rightarrow> string" where
  "str_nat n = (if n < 10 then [digit_char n] else str_nat (n div 10) @ [digit_char (n mod 10)])"

declare str_nat.simps [simp del]

definition str_int :: "int \<Rightarrow> string" where
  "str_int i = (if i < 0 then CHR ''-'' # str_nat (nat (- i)) else str_nat (nat i))"

text \<open>
  \<^verbatim>\<open>str(v)\<close> at the places where the program calls it, that is, on values that are
  neither dicts nor lists. On a composite the program never calls it while indexing; the
  model returns the empty string there.
\<close>

fun py_str :: "json \<Rightarrow> string" where
  "py_str JNull = ''None''"
| "py_str (JBool b) = (if b then ''True'' else ''False'')"
| "py_str (JInt i) = str_int i"
| "py_str (JFloat r) = r"
| "py_str (JStr s) = s"
| "py_str (JArr xs) = []"
| "py_str (JObj kvs) = []"

section \<open>Flattener\<close>

text \<open>\<^verbatim>\<open>full_key = f"{prefix}.{k}" if prefix else k\<close>\<close>

definition full_key :: "string \<Rightarrow> string \<Rightarrow> string" where
  "full_key prefix k = (if prefix \<noteq> [] then prefix @ ''.'' @ k else k)"

text \<open>\<^verbatim>\<open>_extract_json_keys(data, prefix)\<close>: every \<^verbatim>\<open>keys.extend\<close> is an append.\<close>

fun extract_json_keys :: "json \<Rightarrow> string \<Rightarrow> string list" where
  "extract_json_keys (JObj kvs) prefix =
     concat (map (\<lambda>(k, v). full_key prefix k # extract_json_keys v (full_key prefix k)) kvs)"
| "extract_json_keys (JArr xs) prefix =
     concat (map (\<lambda>item. extract_json_keys item prefix) xs)"
| "extract_json_keys v prefix = []"

text \<open>\<^verbatim>\<open>_extract_json_values(data)\<close>\<close>

fun extract_json_values :: "json \<Rightarrow> string list" where
  "extract_json_values (JObj kvs) =
     concat (map (\<lambda>(k, v). if is_composite v then extract_json_values v else [py_str v]) kvs)"
| "extract_json_values (JArr xs) = concat (map extract_json_values xs)"
| "extract_json_values v = []"

section \<open>Path resolver\<close>

text \<open>\<^verbatim>\<open>path.split('.')\<close>: never empty, the empty path gives one empty segment.\<close>

fun split_dot :: "string \<Rightarrow> string list" where
  "split_dot [] = [[]]"
| "split_dot (c # cs) =
     (if c = CHR ''.'' then [] # split_dot cs
      else (case split_dot cs of [] \<Rightarrow> [[c]] | w # ws \<Rightarrow> (c # w) # ws))"

text \<open>
  The \<^verbatim>\<open>for key in keys\<close> loop of \<^verbatim>\<open>_get_values_by_path\<close>: a dict is indexed
  (\<^verbatim>\<open>KeyError\<close> is caught and gives the empty list), a list or a scalar met while a
  segment is still to be consumed gives the empty list, and once the segments are used up
  the value reached is returned in a singleton list.
\<close>

fun walk :: "json \<Rightarrow> string list \<Rightarrow> json list" where
  "walk v [] = [v]"
| "walk (JObj kvs) (key # keys) =
     (case map_of kvs key of Some v \<Rightarrow> walk v keys | None \<Rightarrow> [])"
| "walk (JArr xs) (key # keys) = []"
| "walk v (key # keys) = []"

text \<open>\<^verbatim>\<open>_get_values_by_path(data, path)\<close>\<close>

fun get_values_by_path :: "json \<Rightarrow> string \<Rightarrow> json list" where
  "get_values_by_path (JArr xs) path = concat (map (\<lambda>item. get_values_by_path item path) xs)"
| "get_values_by_path v path = walk v (split_dot path)"

section \<open>Reverse indexer\<close>

text \<open>
  While \<^verbatim>\<open>_build_value_to_key_map\<close> runs, \<^verbatim>\<open>value_to_keys\<close> is a dict from
  stringified scalars to sets of key paths. The two statements
  \<^verbatim>\<open>if val not in value_to_keys: value_to_keys[val] = set()\<close> and
  \<^verbatim>\<open>value_to_keys[val].update(keys)\<close> (or \<^verbatim>\<open>.add(full_key)\<close>) are one step:
\<close>

definition acc_update ::
  "string \<Rightarrow> string set \<Rightarrow> (string \<times> string set) list \<Rightarrow> (string \<times> string set) list" where
  "acc_update val ks acc =
     AList.update val ((case map_of acc val of None \<Rightarrow> {} | Some old \<Rightarrow> old) \<union> ks) acc"

text \<open>\<^verbatim>\<open>for val, keys in nested_map.items(): ...\<close>\<close>

definition merge_nested ::
  "(string \<times> string list) list \<Rightarrow> (string \<times> string set) list \<Rightarrow> (string \<times> string set) list" where
  "merge_nested nested acc = fold (\<lambda>(val, keys). acc_update val (set keys)) nested acc"

text \<open>\<^verbatim>\<open>{val: sorted(list(keys)) for val, keys in value_to_keys.items()}\<close>\<close>

definition sorted_entries :: "(string \<times> string set) list \<Rightarrow> (string \<times> string list) list" where
  "sorted_entries acc = map (\<lambda>(val, keys). (val, sorted_list_of_set keys)) acc"

text \<open>\<^verbatim>\<open>_build_value_to_key_map(data, prefix)\<close>\<close>

fun build_value_to_key_map :: "json \<Rightarrow> string \<Rightarrow> (string \<times> string list) list" where
  "build_value_to_key_map (JObj kvs) prefix =
     sorted_entries
       (fold (\<lambda>(k, v) acc.
                if is_composite v
                then merge_nested (build_value_to_key_map v (full_key prefix k)) acc
                else acc_update (py_str v) {full_key prefix k} acc)
             kvs [])"
| "build_value_to_key_map (JArr xs) prefix =
     sorted_entries
       (fold (\<lambda>item acc. merge_nested (build_value_to_key_map item prefix) acc) xs [])"
| "build_value_to_key_map v prefix = []"

section \<open>The searcher and its key filter\<close>

datatype error = AttributeError | KeyError | TypeError | IndexError

text \<open>
  The attributes of a \<^verbatim>\<open>FuzzyJSONSearcher\<close>. \<^verbatim>\<open>__init__\<close> assigns \<^verbatim>\<open>data\<close>
  (\<^verbatim>\<open>None\<close>, here \<open>JNull\<close>), \<^verbatim>\<open>unique_keys\<close> and \<^verbatim>\<open>_allowed_keys_filter\<close>;
  the other four attributes do not exist until they are first assigned, which is the
  value \<open>None\<close> here.
\<close>

record searcher =
  data :: json
  all_keys :: "string list option"
  all_values :: "string list option"
  allowed_keys_filter :: "string list"
  unique_keys :: "string list"
  unique_values :: "string list option"
  value_to_keys_map :: "(string \<times> string list) list option"

definition init_searcher :: searcher where
  "init_searcher =
     \<lparr>data = JNull, all_keys = None, all_values = None, allowed_keys_filter = [],
      unique_keys = [], unique_values = None, value_to_keys_map = None\<rparr>"

text \<open>
  \<^verbatim>\<open>pattern in key\<close> on two strings: \<open>pattern\<close> occurs in \<open>key\<close> at some
  position, compared character by character.
\<close>

fun starts_with :: "string \<Rightarrow> string \<Rightarrow> bool" where
  "starts_with [] key = True"
| "starts_with (p # ps) [] = False"
| "starts_with (p # ps) (c # cs) = (p = c \<and> starts_with ps cs)"

fun str_in :: "string \<Rightarrow> string \<Rightarrow> bool" where
  "str_in pattern [] = (pattern = [])"
| "str_in pattern (c # cs) = (starts_with pattern (c # cs) \<or> str_in pattern cs)"

text \<open>
  The loop over \<^verbatim>\<open>self._all_keys\<close> with its inner loop over the patterns:
  a key is appended, once, when some pattern is \<^verbatim>\<open>in\<close> it.
\<close>

definition filtered_keys :: "string list \<Rightarrow> string list \<Rightarrow> string list" where
  "filtered_keys keys patterns = filter (\<lambda>key. list_ex (\<lambda>pattern. str_in pattern key) patterns) keys"

text \<open>The loop that rebuilds the index from the items of the full one.\<close>

definition filter_index ::
  "string list \<Rightarrow> (string \<times> string list) list \<Rightarrow> (string \<times> string list) list" where
  "filter_index uks full =
     fold (\<lambda>(val, keys) acc.
             let filtered_associated_keys = filter (\<lambda>k. k \<in> set uks) keys
             in if filtered_associated_keys \<noteq> [] then AList.update val filtered_associated_keys acc
                else acc)
          full []"

text \<open>
  \<^verbatim>\<open>_apply_key_filter\<close>. Reading an attribute that was never assigned raises
  \<^verbatim>\<open>AttributeError\<close>.
\<close>

definition apply_key_filter :: "searcher \<Rightarrow> error + searcher" where
  "apply_key_filter s =
     (if allowed_keys_filter s = [] then
        (case all_keys s of
           None \<Rightarrow> Inl AttributeError
         | Some ks \<Rightarrow>
            (case all_values s of
               None \<Rightarrow> Inl AttributeError
             | Some vs \<Rightarrow>
                Inr (s\<lparr>unique_keys := sort (remdups ks),
                       unique_values := Some (sort (remdups vs)),
                       value_to_keys_map := Some (build_value_to_key_map (data s) [])\<rparr>)))
      else
        (case all_keys s of
           None \<Rightarrow> Inl AttributeError
         | Some ks \<Rightarrow>
            (let uks = sort (remdups (filtered_keys ks (allowed_keys_filter s)));
                 filtered_value_to_keys_map = filter_index uks (build_value_to_key_map (data s) [])
             in Inr (s\<lparr>unique_keys := uks,
                       value_to_keys_map := Some filtered_value_to_keys_map,
                       unique_values := Some (sort (map fst filtered_value_to_keys_map))\<rparr>))))"

text \<open>
  \<^verbatim>\<open>list(self.data[0].keys())\<close>. \<^verbatim>\<open>csv.DictReader\<close> only ever produces a list of
  dicts; on the other shapes the indexing or the call of \<^verbatim>\<open>keys\<close> raises.
\<close>

fun csv_header :: "json \<Rightarrow> error + string list" where
  "csv_header (JArr (JObj kvs # rest)) = Inr (map fst kvs)"
| "csv_header (JArr (x # rest)) = Inl AttributeError"
| "csv_header (JArr []) = Inl IndexError"
| "csv_header (JObj kvs) = Inl KeyError"
| "csv_header (JStr s) = Inl AttributeError"
| "csv_header v = Inl TypeError"

text \<open>
  \<^verbatim>\<open>_load_data\<close>. The file is read by \<^verbatim>\<open>_load_json\<close> or \<^verbatim>\<open>_load_csv\<close>, which
  return the parsed document, or \<^verbatim>\<open>None\<close> after logging when the file is missing or
  cannot be parsed; \<open>loaded\<close> is that return value and \<open>ext\<close> is
  \<^verbatim>\<open>self.file_path.suffix.lower()\<close>.
\<close>

definition load_data :: "string \<Rightarrow> json \<Rightarrow> searcher \<Rightarrow> error + searcher" where
  "load_data ext loaded s =
     (if ext = ''.json'' then
        (let s1 = s\<lparr>data := loaded\<rparr> in
         if truthy loaded
         then apply_key_filter
                (s1\<lparr>all_keys := Some (extract_json_keys loaded []),
                    all_values := Some (extract_json_values loaded)\<rparr>)
         else apply_key_filter s1)
      else if ext = ''.csv'' then
        (let s1 = s\<lparr>data := loaded\<rparr> in
         if truthy loaded
         then (case (if truthy loaded then csv_header loaded else Inr []) of
                 Inl e \<Rightarrow> Inl e
               | Inr ks \<Rightarrow> apply_key_filter (s1\<lparr>all_keys := Some ks, all_values := Some []\<rparr>))
         else apply_key_filter s1)
      else apply_key_filter s)"

text \<open>\<^verbatim>\<open>FuzzyJSONSearcher(file_path)\<close>: \<^verbatim>\<open>__init__\<close> followed by \<^verbatim>\<open>_load_data\<close>.\<close>

definition new_searcher :: "string \<Rightarrow> json \<Rightarrow> error + searcher" where
  "new_searcher ext loaded = load_data ext loaded init_searcher"

text \<open>The \<^verbatim>\<open>/only\<close> command: assign the pattern list, then \<^verbatim>\<open>_apply_key_filter\<close>.\<close>

definition set_filter :: "string list \<Rightarrow> searcher \<Rightarrow> error + searcher" where
  "set_filter patterns s = apply_key_filter (s\<lparr>allowed_keys_filter := patterns\<rparr>)"

text \<open>Any sequence of \<^verbatim>\<open>/only\<close> commands, each with its own pattern list.\<close>

fun run_filters :: "string list list \<Rightarrow> searcher \<Rightarrow> error + searcher" where
  "run_filters [] s = Inr s"
| "run_filters (patterns # rest) s =
     (case set_filter patterns s of Inl e \<Rightarrow> Inl e | Inr s' \<Rightarrow> run_filters rest s')"

section \<open>Fuzzy ranker\<close>









section \<open>Documents whose key paths can be walked back\<close>

text \<open>
  \<^verbatim>\<open>_extract_json_keys\<close> joins dict keys with a dot and \<^verbatim>\<open>_get_values_by_path\<close>
  splits the path at every dot, with no escaping anywhere; and an empty prefix is
  treated as no prefix. A key can be recovered from a path when it is not empty and holds
  no dot.
\<close>

definition good_key :: "string \<Rightarrow> bool" where
  "good_key k \<longleftrightarrow> k \<noteq> [] \<and> CHR ''.'' \<notin> set k"

text \<open>A value with no dict item anywhere inside: it contributes no key path.\<close>

fun keyless :: "json \<Rightarrow> bool" where
  "keyless (JObj kvs) = (kvs = [])"
| "keyless (JArr xs) = list_all keyless xs"
| "keyless v = True"

text \<open>
  What a dict may hold for its paths to be walked back: items with distinct keys (as in
  every Python dict), each key recoverable, and below a dict only sequences that
  contribute no key path (the walk stops at a sequence that is met while segments remain).
\<close>

fun well_keyed :: "json \<Rightarrow> bool" where
  "well_keyed (JObj kvs) =
     (distinct (map fst kvs) \<and> list_all (\<lambda>(k, v). good_key k \<and> well_keyed v) kvs)"
| "well_keyed (JArr xs) = list_all keyless xs"
| "well_keyed v = True"

text \<open>At the root, sequences may nest freely: the resolver maps itself over them.\<close>

fun resolvable_doc :: "json \<Rightarrow> bool" where
  "resolvable_doc (JArr xs) = list_all resolvable_doc xs"
| "resolvable_doc v = well_keyed v"

text \<open>
  The dict items of a document in the order in which \<^verbatim>\<open>_extract_json_keys\<close> visits them,
  each with the key path the flattener gives it and the value it holds: the first
  components are the flattener's output.
\<close>

fun keyed_items :: "json \<Rightarrow> string \<Rightarrow> (string \<times> json) list" where
  "keyed_items (JObj kvs) prefix =
     concat (map (\<lambda>(k, v). (full_key prefix k, v) # keyed_items v (full_key prefix k)) kvs)"
| "keyed_items (JArr xs) prefix = concat (map (\<lambda>item. keyed_items item prefix) xs)"
| "keyed_items v prefix = []"


section \<open>What the reverse index records\<close>

text \<open>
  The scalar leaves of a document, each as the pair of its stringified value and the key
  path of the dict item that holds it. A scalar that sits directly in a sequence is not
  the value of a dict item and is not a leaf in this sense. \<open>build_value_to_key_map\<close> is
  proved below to record exactly these pairs.
\<close>

fun leaf_pairs :: "json \<Rightarrow> string \<Rightarrow> (string \<times> string) set" where
  "leaf_pairs (JObj kvs) prefix =
     (\<Union>(k, v) \<in> set kvs.
        if is_composite v then leaf_pairs v (full_key prefix k)
        else {(py_str v, full_key prefix k)})"
| "leaf_pairs (JArr xs) prefix = (\<Union>item \<in> set xs. leaf_pairs item prefix)"
| "leaf_pairs v prefix = {}"

text \<open>The (value, key path) pairs of a finished index, and of the dict of sets while it is built.\<close>

definition index_pairs :: "(string \<times> string list) list \<Rightarrow> (string \<times> string) set" where
  "index_pairs m = {(s, k). \<exists>ks. (s, ks) \<in> set m \<and> k \<in> set ks}"

definition acc_pairs :: "(string \<times> string set) list \<Rightarrow> (string \<times> string) set" where
  "acc_pairs acc = {(s, k). \<exists>ks. map_of acc s = Some ks \<and> k \<in> ks}"

definition acc_ok :: "(string \<times> string set) list \<Rightarrow> bool" where
  "acc_ok acc \<longleftrightarrow> distinct (map fst acc) \<and> (\<forall>(s, ks) \<in> set acc. finite ks)"


section \<open>CSV documents\<close>

text \<open>
  What \<^verbatim>\<open>list(csv.DictReader(f))\<close> gives for a file with at least one record: a
  non-empty list of dicts whose values are not composite (strings, or \<^verbatim>\<open>None\<close> for
  a field missing from a short row).
\<close>

fun csv_row :: "json \<Rightarrow> bool" where
  "csv_row (JObj kvs) = list_all (\<lambda>(k, v). \<not> is_composite v) kvs"
| "csv_row v = False"

fun csv_doc :: "json \<Rightarrow> bool" where
  "csv_doc (JArr rows) = (rows \<noteq> [] \<and> list_all csv_row rows)"
| "csv_doc v = False"

text \<open>The stringified field values of one record.\<close>

fun row_values :: "json \<Rightarrow> string set" where
  "row_values (JObj kvs) = (\<lambda>(k, v). py_str v) ` set kvs"
| "row_values v = {}"



section \<open>Example documents\<close>

text \<open>\<^verbatim>\<open>{"user": {"name": "Alice", "tags": ["admin", "vip"]}}\<close> and the searcher built from it.\<close>

definition user_doc :: json where
  "user_doc =
     JObj [(''user'', JObj [(''name'', JStr ''Alice''),
                            (''tags'', JArr [JStr ''admin'', JStr ''vip''])])]"

definition user_searcher :: searcher where
  "user_searcher =
     \<lparr>data = user_doc,
      all_keys = Some [''user'', ''user.name'', ''user.tags''],
      all_values = Some [''Alice''],
      allowed_keys_filter = [],
      unique_keys = [''user'', ''user.name'', ''user.tags''],
      unique_values = Some [''Alice''],
      value_to_keys_map = Some [(''Alice'', [''user.name''])]\<rparr>"



text \<open>\<^verbatim>\<open>{"a.b": 1}\<close>: one key, with a dot in it.\<close>

definition dotted_doc :: json where
  "dotted_doc = JObj [(''a.b'', JInt 1)]"

text \<open>\<^verbatim>\<open>{"a": [{"b": 1}]}\<close>: a dict inside a sequence that is the value of a dict item.\<close>

definition nested_doc :: json where
  "nested_doc = JObj [(''a'', JArr [JObj [(''b'', JInt 1)]])]"

text \<open>A CSV file with the header \<^verbatim>\<open>name,age\<close> and two records, and the searcher built from it.\<close>

definition people_csv :: json where
  "people_csv =
     JArr [JObj [(''name'', JStr ''Alice''), (''age'', JStr ''30'')],
           JObj [(''name'', JStr ''Bob''), (''age'', JStr ''30'')]]"

definition people_searcher :: searcher where
  "people_searcher =
     \<lparr>data = people_csv,
      all_keys = Some [''name'', ''age''],
      all_values = Some [],
      allowed_keys_filter = [],
      unique_keys = [''age'', ''name''],
      unique_values = Some [],
      value_to_keys_map =
        Some [(''Alice'', [''name'']), (''30'', [''age'']), (''Bob'', [''name''])]\<rparr>"

section \<open>Evaluating the examples\<close>

lemmas eval_defs =
  new_searcher_def load_data_def init_searcher_def apply_key_filter_def set_filter_def
  filtered_keys_def filter_index_def full_key_def acc_update_def merge_nested_def
  sorted_entries_def Let_def

lemma new_searcher_user_doc: "new_searcher ''.json'' user_doc = Inr user_searcher"
  by (simp add: eval_defs user_doc_def user_searcher_def)

lemma apply_user_searcher: "apply_key_filter user_searcher = Inr user_searcher"
  by (simp add: eval_defs user_doc_def user_searcher_def)

lemma new_searcher_people: "new_searcher ''.csv'' people_csv = Inr people_searcher"
  by (simp add: eval_defs people_csv_def people_searcher_def)

section \<open>Loading\<close>

text \<open>
  C4. Loading an empty document should give empty key and value universes without
  raising, a failed load should stay distinguishable from an empty document, and an
  unsupported extension should count as no data loaded. In the program
  \<^verbatim>\<open>_all_keys\<close> and \<^verbatim>\<open>_all_values\<close> are assigned only under \<^verbatim>\<open>if self.data:\<close>, and
  \<^verbatim>\<open>_apply_key_filter\<close> then reads \<^verbatim>\<open>self._all_keys\<close>: the constructor raises
  \<^verbatim>\<open>AttributeError\<close> for the empty object, the empty array, an empty CSV file, a
  failed load (\<^verbatim>\<open>None\<close>) and an unsupported extension alike.
\<close>

theorem load_empty_document_raises:
  "new_searcher ''.json'' (JObj []) = Inl AttributeError \<and>
   new_searcher ''.json'' (JArr []) = Inl AttributeError \<and>
   new_searcher ''.csv'' (JArr []) = Inl AttributeError \<and>
   new_searcher ''.json'' JNull = Inl AttributeError \<and>
   new_searcher ''.csv'' JNull = Inl AttributeError \<and>
   new_searcher ''.txt'' JNull = Inl AttributeError"
  by (simp add: new_searcher_def load_data_def init_searcher_def apply_key_filter_def)

section \<open>The key filter as a state transformer\<close>

lemma apply_key_filter_fields:
  assumes "apply_key_filter s = Inr s'"
  shows "data s' = data s" "all_keys s' = all_keys s" "all_values s' = all_values s"
    "allowed_keys_filter s' = allowed_keys_filter s"
  using assms by (auto simp: apply_key_filter_def Let_def split: if_splits option.splits)

lemma apply_key_filter_caches_only:
  assumes "apply_key_filter s = Inr s'"
  shows "s' = s\<lparr>unique_keys := unique_keys s', unique_values := unique_values s',
                 value_to_keys_map := value_to_keys_map s'\<rparr>"
  using assms by (auto simp: apply_key_filter_def Let_def split: if_splits option.splits)

lemma apply_key_filter_total:
  assumes "all_keys s = Some ks" "all_values s = Some vs"
  shows "\<exists>s'. apply_key_filter s = Inr s'"
  using assms by (simp add: apply_key_filter_def Let_def)

lemma set_filter_fields:
  assumes "set_filter ps s = Inr s'"
  shows "data s' = data s" "all_keys s' = all_keys s" "all_values s' = all_values s"
    "allowed_keys_filter s' = ps"
  using assms apply_key_filter_fields[of "s\<lparr>allowed_keys_filter := ps\<rparr>" s']
  by (simp_all add: set_filter_def)

lemma run_filters_fields:
  "run_filters pss s = Inr s' \<Longrightarrow>
     data s' = data s \<and> all_keys s' = all_keys s \<and> all_values s' = all_values s"
proof (induction pss arbitrary: s)
  case Nil
  then show ?case by simp
next
  case (Cons ps pss)
  then obtain s1 where s1: "set_filter ps s = Inr s1" and rest: "run_filters pss s1 = Inr s'"
    by (auto split: sum.splits)
  from Cons.IH[OF rest] set_filter_fields[OF s1] show ?case by simp
qed

lemma run_filters_total:
  "all_keys s = Some ks \<Longrightarrow> all_values s = Some vs \<Longrightarrow> \<exists>s'. run_filters pss s = Inr s'"
proof (induction pss arbitrary: s)
  case Nil
  then show ?case by simp
next
  case (Cons ps pss)
  from Cons.prems obtain s1 where s1: "set_filter ps s = Inr s1"
    using apply_key_filter_total[of "s\<lparr>allowed_keys_filter := ps\<rparr>" ks vs]
    by (auto simp: set_filter_def)
  from set_filter_fields[OF s1] Cons.prems
  have "all_keys s1 = Some ks" "all_values s1 = Some vs" by simp_all
  from Cons.IH[OF this] s1 show ?case by simp
qed

text \<open>
  C10. Applying or clearing the key filter, once or any number of times with any pattern
  lists, leaves \<^verbatim>\<open>self.data\<close>, \<^verbatim>\<open>self._all_keys\<close> and \<^verbatim>\<open>self._all_values\<close> as they
  were; one call of \<^verbatim>\<open>_apply_key_filter\<close> reassigns \<^verbatim>\<open>unique_keys\<close>,
  \<^verbatim>\<open>unique_values\<close> and \<^verbatim>\<open>value_to_keys_map\<close> and nothing else. On a searcher whose
  traversal results exist the calls do return.
\<close>

theorem key_filter_frame:
  "(apply_key_filter s = Inr s' \<longrightarrow>
      data s' = data s \<and> all_keys s' = all_keys s \<and> all_values s' = all_values s \<and>
      s' = s\<lparr>unique_keys := unique_keys s', unique_values := unique_values s',
             value_to_keys_map := value_to_keys_map s'\<rparr>) \<and>
   (run_filters pss s = Inr s'' \<longrightarrow>
      data s'' = data s \<and> all_keys s'' = all_keys s \<and> all_values s'' = all_values s) \<and>
   (all_keys s \<noteq> None \<and> all_values s \<noteq> None \<longrightarrow>
      (\<exists>t. apply_key_filter s = Inr t) \<and> (\<exists>t. run_filters pss s = Inr t))"
  using apply_key_filter_fields[of s s'] apply_key_filter_caches_only[of s s']
    run_filters_fields[of pss s s''] apply_key_filter_total[of s] run_filters_total[of s _ _ pss]
  by auto

theorem key_filter_frame_witness:
  "apply_key_filter user_searcher = Inr user_searcher \<and>
   all_keys user_searcher \<noteq> None \<and> all_values user_searcher \<noteq> None \<and>
   (\<exists>t. run_filters [[''tags''], [], [''name'', ''user'']] user_searcher = Inr t \<and>
        data t = user_doc \<and> all_keys t = all_keys user_searcher \<and>
        all_values t = all_values user_searcher)"
proof -
  have h1: "apply_key_filter user_searcher = Inr user_searcher"
    by (rule apply_user_searcher)
  have h2: "all_keys user_searcher \<noteq> None \<and> all_values user_searcher \<noteq> None"
    and h3: "data user_searcher = user_doc"
    by (simp_all add: user_searcher_def)
  from h2 key_filter_frame[of user_searcher user_searcher "[[''tags''], [], [''name'', ''user'']]"]
  obtain t where t: "run_filters [[''tags''], [], [''name'', ''user'']] user_searcher = Inr t"
    by blast
  with key_filter_frame[of user_searcher user_searcher "[[''tags''], [], [''name'', ''user'']]" t]
  have "data t = data user_searcher \<and> all_keys t = all_keys user_searcher \<and>
        all_values t = all_values user_searcher"
    by blast
  with h1 h2 h3 t show ?thesis by auto
qed

lemma set_filter_twice: "set_filter ps s = Inr s1 \<Longrightarrow> set_filter ps s1 = Inr s1"
  by (auto simp: set_filter_def apply_key_filter_def Let_def split: if_splits option.splits)

lemma filter_then_clear:
  assumes "apply_key_filter s = Inr s0" "allowed_keys_filter s = []" "set_filter ps s0 = Inr s1"
  shows "set_filter [] s1 = Inr s0"
proof -
  have "s\<lparr>allowed_keys_filter := []\<rparr> = s"
    using assms(2) by (cases s) simp
  then show ?thesis
    using assms
    by (auto simp: set_filter_def apply_key_filter_def Let_def split: if_splits option.splits)
qed

text \<open>
  C9. Let \<open>s0\<close> be a searcher in its unfiltered state (the result of
  \<^verbatim>\<open>_apply_key_filter\<close> with an empty pattern list, as after loading). Setting a filter
  succeeds; setting the same filter a second time changes nothing, so the key universe,
  the value universe and the reverse index are those of the first application; and
  clearing the filter afterwards gives back \<open>s0\<close> exactly.
\<close>

theorem filter_idempotent_and_clear:
  assumes "apply_key_filter s = Inr s0" and "allowed_keys_filter s = []"
  shows "\<exists>s1. set_filter ps s0 = Inr s1 \<and> set_filter ps s1 = Inr s1 \<and>
              set_filter [] s1 = Inr s0"
proof -
  from assms obtain ks vs where "all_keys s = Some ks" "all_values s = Some vs"
    by (auto simp: apply_key_filter_def split: option.splits)
  with apply_key_filter_fields[OF assms(1)]
  have "all_keys (s0\<lparr>allowed_keys_filter := ps\<rparr>) = Some ks"
       "all_values (s0\<lparr>allowed_keys_filter := ps\<rparr>) = Some vs"
    by simp_all
  from apply_key_filter_total[OF this] obtain s1 where s1: "set_filter ps s0 = Inr s1"
    by (auto simp: set_filter_def)
  with set_filter_twice[OF s1] filter_then_clear[OF assms s1] show ?thesis by blast
qed

theorem filter_idempotent_and_clear_witness:
  "apply_key_filter user_searcher = Inr user_searcher \<and>
   allowed_keys_filter user_searcher = [] \<and>
   (\<exists>s1. set_filter [''tags''] user_searcher = Inr s1 \<and> set_filter [''tags''] s1 = Inr s1 \<and>
         set_filter [] s1 = Inr user_searcher)"
proof -
  have h1: "apply_key_filter user_searcher = Inr user_searcher"
    by (rule apply_user_searcher)
  have h2: "allowed_keys_filter user_searcher = []"
    by (simp add: user_searcher_def)
  from filter_idempotent_and_clear[OF h1 h2, of "[''tags'']"] h1 h2 show ?thesis by blast
qed

section \<open>Walking a key path back\<close>

lemma split_dot_no_dot: "CHR ''.'' \<notin> set k \<Longrightarrow> split_dot k = [k]"
  by (induction k) auto

lemma split_dot_append:
  "CHR ''.'' \<notin> set a \<Longrightarrow> split_dot (a @ CHR ''.'' # b) = a # split_dot b"
  by (induction a) auto

lemma split_dot_joined:
  "CHR ''.'' \<notin> set s \<Longrightarrow> list_all good_key segs \<Longrightarrow>
     split_dot (s @ concat (map (\<lambda>t. CHR ''.'' # t) segs)) = s # segs"
proof (induction segs arbitrary: s)
  case Nil
  then show ?case by (simp add: split_dot_no_dot)
next
  case (Cons t ts)
  from Cons.prems(2) have ts: "list_all good_key ts" and "good_key t" by simp_all
  then have t: "CHR ''.'' \<notin> set t" by (simp add: good_key_def)
  from Cons.IH[OF t ts] Cons.prems(1) show ?case by (simp add: split_dot_append)
qed

lemma foldl_full_key:
  "acc \<noteq> [] \<Longrightarrow> foldl full_key acc segs = acc @ concat (map (\<lambda>t. CHR ''.'' # t) segs)"
  by (induction segs arbitrary: acc) (simp_all add: full_key_def)

lemma split_dot_path:
  assumes "segs \<noteq> []" "list_all good_key segs"
  shows "split_dot (foldl full_key [] segs) = segs"
proof -
  from assms obtain s ts where segs: "segs = s # ts" by (cases segs) auto
  with assms have ts: "list_all good_key ts" and "good_key s" by simp_all
  then have s: "s \<noteq> []" "CHR ''.'' \<notin> set s" by (simp_all add: good_key_def)
  have "foldl full_key [] segs = s @ concat (map (\<lambda>t. CHR ''.'' # t) ts)"
    using s(1) by (simp add: segs full_key_def foldl_full_key)
  with split_dot_joined[OF s(2) ts] show ?thesis by (simp add: segs)
qed

section \<open>Sequences met while resolving\<close>








section \<open>The reverse index and the scalar leaves\<close>

lemma acc_ok_Nil: "acc_ok []" "acc_pairs [] = {}"
  by (simp_all add: acc_ok_def acc_pairs_def)

lemma map_of_acc_update:
  "map_of (acc_update v ks acc) =
     (map_of acc)(v \<mapsto> (case map_of acc v of None \<Rightarrow> {} | Some old \<Rightarrow> old) \<union> ks)"
  by (simp add: acc_update_def update_conv')

lemma acc_pairs_update: "acc_pairs (acc_update v ks acc) = acc_pairs acc \<union> {v} \<times> ks"
  by (auto simp: acc_pairs_def map_of_acc_update split: option.splits if_splits)

lemma acc_ok_update:
  assumes "acc_ok acc" "finite ks"
  shows "acc_ok (acc_update v ks acc)"
proof -
  have d: "distinct (map fst (acc_update v ks acc))"
    using assms(1) by (simp add: acc_ok_def acc_update_def distinct_update)
  have "finite B" if "(s, B) \<in> set (acc_update v ks acc)" for s B
  proof -
    from that d have m: "map_of (acc_update v ks acc) s = Some B" by simp
    show ?thesis
    proof (cases "s = v")
      case True
      with m have B: "B = (case map_of acc v of None \<Rightarrow> {} | Some old \<Rightarrow> old) \<union> ks"
        by (simp add: map_of_acc_update)
      have "finite (case map_of acc v of None \<Rightarrow> {} | Some old \<Rightarrow> old)"
        using assms(1) by (auto simp: acc_ok_def split: option.splits dest: map_of_SomeD)
      with B assms(2) show ?thesis by simp
    next
      case False
      with m have "map_of acc s = Some B" by (simp add: map_of_acc_update)
      with assms(1) show ?thesis by (auto simp: acc_ok_def dest: map_of_SomeD)
    qed
  qed
  with d show ?thesis by (auto simp: acc_ok_def)
qed

lemma keys_acc_update: "fst ` set (acc_update v ks acc) = insert v (fst ` set acc)"
  by (simp add: acc_update_def dom_update)

lemma merge_nested_props:
  "acc_ok acc \<Longrightarrow>
     acc_ok (merge_nested nested acc) \<and>
     acc_pairs (merge_nested nested acc) = acc_pairs acc \<union> index_pairs nested \<and>
     fst ` set (merge_nested nested acc) = fst ` set acc \<union> fst ` set nested"
proof (induction nested arbitrary: acc)
  case Nil
  then show ?case by (simp add: merge_nested_def index_pairs_def)
next
  case (Cons e nested)
  obtain s ks where e: "e = (s, ks)" by (cases e)
  have step: "merge_nested ((s, ks) # nested) acc = merge_nested nested (acc_update s (set ks) acc)"
    by (simp add: merge_nested_def)
  have ok: "acc_ok (acc_update s (set ks) acc)"
    using Cons.prems by (simp add: acc_ok_update)
  have "index_pairs ((s, ks) # nested) = {s} \<times> set ks \<union> index_pairs nested"
    by (auto simp: index_pairs_def)
  with Cons.IH[OF ok] show ?case
    by (simp add: step acc_pairs_update keys_acc_update e Un_assoc insert_commute)
qed

lemma sorted_entries_props:
  assumes "acc_ok acc"
  shows "index_pairs (sorted_entries acc) = acc_pairs acc"
    and "map fst (sorted_entries acc) = map fst acc"
proof -
  show "map fst (sorted_entries acc) = map fst acc"
    by (simp add: sorted_entries_def case_prod_unfold)
  have "(s, k) \<in> index_pairs (sorted_entries acc) \<longleftrightarrow> (s, k) \<in> acc_pairs acc" for s k
  proof -
    have "(s, k) \<in> index_pairs (sorted_entries acc) \<longleftrightarrow> (\<exists>B. (s, B) \<in> set acc \<and> k \<in> B)"
      using assms by (fastforce simp: index_pairs_def sorted_entries_def acc_ok_def)
    also have "\<dots> \<longleftrightarrow> (s, k) \<in> acc_pairs acc"
      using assms by (auto simp: acc_pairs_def acc_ok_def)
    finally show ?thesis .
  qed
  then show "index_pairs (sorted_entries acc) = acc_pairs acc" by auto
qed

lemma sorted_entries_summary:
  assumes "acc_ok acc \<and> acc_pairs acc = P \<and> fst ` set acc = K"
  shows "distinct (map fst (sorted_entries acc)) \<and> index_pairs (sorted_entries acc) = P \<and>
         fst ` set (sorted_entries acc) = K"
proof -
  from assms have ok: "acc_ok acc" by simp
  have "fst ` set (sorted_entries acc) = set (map fst (sorted_entries acc))" by simp
  also have "\<dots> = fst ` set acc" by (simp only: sorted_entries_props(2)[OF ok] set_map)
  finally show ?thesis
    using assms ok by (simp add: sorted_entries_props acc_ok_def)
qed

lemma fold_acc_props:
  assumes step: "\<And>x acc. x \<in> set xs \<Longrightarrow> acc_ok acc \<Longrightarrow>
            acc_ok (f x acc) \<and> acc_pairs (f x acc) = acc_pairs acc \<union> g x \<and>
            fst ` set (f x acc) = fst ` set acc \<union> h x"
    and ok: "acc_ok acc"
  shows "acc_ok (fold f xs acc) \<and>
         acc_pairs (fold f xs acc) = acc_pairs acc \<union> (\<Union>x \<in> set xs. g x) \<and>
         fst ` set (fold f xs acc) = fst ` set acc \<union> (\<Union>x \<in> set xs. h x)"
  using assms
proof (induction xs arbitrary: acc)
  case Nil
  then show ?case by simp
next
  case (Cons x xs)
  have s1: "acc_ok (f x acc) \<and> acc_pairs (f x acc) = acc_pairs acc \<union> g x \<and>
            fst ` set (f x acc) = fst ` set acc \<union> h x"
    using Cons.prems by simp
  have "acc_ok (fold f xs (f x acc)) \<and>
        acc_pairs (fold f xs (f x acc)) = acc_pairs (f x acc) \<union> (\<Union>x \<in> set xs. g x) \<and>
        fst ` set (fold f xs (f x acc)) = fst ` set (f x acc) \<union> (\<Union>x \<in> set xs. h x)"
    using Cons.prems s1 by (intro Cons.IH) simp_all
  with s1 show ?case by (simp add: Un_assoc)
qed

lemma build_props:
  "distinct (map fst (build_value_to_key_map v p)) \<and>
   index_pairs (build_value_to_key_map v p) = leaf_pairs v p \<and>
   fst ` set (build_value_to_key_map v p) = set (extract_json_values v)"
proof (induction v p rule: build_value_to_key_map.induct)
  case (1 kvs prefix)
  let ?f = "\<lambda>(k, v) acc.
                if is_composite v
                then merge_nested (build_value_to_key_map v (full_key prefix k)) acc
                else acc_update (py_str v) {full_key prefix k} acc"
  let ?g = "\<lambda>(k, v). if is_composite v then leaf_pairs v (full_key prefix k)
        else {(py_str v, full_key prefix k)}"
  let ?h = "\<lambda>(k, v). if is_composite v then set (extract_json_values v) else {py_str v}"
  have step: "acc_ok (?f x acc) \<and> acc_pairs (?f x acc) = acc_pairs acc \<union> ?g x \<and>
          fst ` set (?f x acc) = fst ` set acc \<union> ?h x"
    if x: "x \<in> set kvs" and ok: "acc_ok acc" for x acc
  proof -
    obtain k v where kv: "x = (k, v)" by (cases x)
    show ?thesis
    proof (cases "is_composite v")
      case True
      from "1.IH"[OF x[unfolded kv] refl True] merge_nested_props[OF ok]
      show ?thesis by (simp add: kv True)
    next
      case False
      with ok show ?thesis
        by (simp add: kv acc_ok_update acc_pairs_update keys_acc_update)
    qed
  qed
  have "acc_ok (fold ?f kvs []) \<and>
        acc_pairs (fold ?f kvs []) = acc_pairs [] \<union> (\<Union>x \<in> set kvs. ?g x) \<and>
        fst ` set (fold ?f kvs []) = fst ` set ([] :: (string \<times> string set) list) \<union> (\<Union>x \<in> set kvs. ?h x)"
    using step acc_ok_Nil(1) by (rule fold_acc_props[where f = ?f and g = ?g and h = ?h])
  then have "acc_ok (fold ?f kvs []) \<and>
        acc_pairs (fold ?f kvs []) = leaf_pairs (JObj kvs) prefix \<and>
        fst ` set (fold ?f kvs []) = set (extract_json_values (JObj kvs))"
    by (simp add: acc_ok_Nil case_prod_unfold)
  from sorted_entries_summary[OF this] show ?case by simp
next
  case (2 xs prefix)
  let ?f = "\<lambda>item acc. merge_nested (build_value_to_key_map item prefix) acc"
  have step: "acc_ok (?f x acc) \<and> acc_pairs (?f x acc) = acc_pairs acc \<union> leaf_pairs x prefix \<and>
          fst ` set (?f x acc) = fst ` set acc \<union> set (extract_json_values x)"
    if x: "x \<in> set xs" and ok: "acc_ok acc" for x acc
    using "2.IH"[OF x] merge_nested_props[OF ok] by simp
  have "acc_ok (fold ?f xs []) \<and>
        acc_pairs (fold ?f xs []) = acc_pairs [] \<union> (\<Union>x \<in> set xs. leaf_pairs x prefix) \<and>
        fst ` set (fold ?f xs []) = fst ` set ([] :: (string \<times> string set) list) \<union> (\<Union>x \<in> set xs. set (extract_json_values x))"
    using step acc_ok_Nil(1)
    by (rule fold_acc_props[where f = ?f and g = "\<lambda>x. leaf_pairs x prefix"
        and h = "\<lambda>x. set (extract_json_values x)"])
  then have "acc_ok (fold ?f xs []) \<and>
        acc_pairs (fold ?f xs []) = leaf_pairs (JArr xs) prefix \<and>
        fst ` set (fold ?f xs []) = set (extract_json_values (JArr xs))"
    by (simp add: acc_ok_Nil)
  from sorted_entries_summary[OF this] show ?case by simp
qed (simp_all add: index_pairs_def)

lemma keyless_no_leaves: "keyless v \<Longrightarrow> leaf_pairs v p = {}"
  by (induction v p rule: leaf_pairs.induct) (auto simp: list_all_iff)

lemma well_keyed_leaf_walk:
  "well_keyed v \<Longrightarrow> (s, k) \<in> leaf_pairs v p \<Longrightarrow>
     \<exists>segs leaf. segs \<noteq> [] \<and> list_all good_key segs \<and> k = foldl full_key p segs \<and>
        walk v segs = [leaf] \<and> \<not> is_composite leaf \<and> py_str leaf = s"
proof (induction v p arbitrary: k rule: leaf_pairs.induct)
  case (1 kvs prefix)
  from "1.prems"(2) obtain k0 v0 where in_kvs: "(k0, v0) \<in> set kvs"
    and k: "if is_composite v0 then (s, k) \<in> leaf_pairs v0 (full_key prefix k0)
            else (s, k) = (py_str v0, full_key prefix k0)"
    by (auto split: if_splits)
  from "1.prems"(1) in_kvs have good: "good_key k0" and wk: "well_keyed v0"
    and look: "map_of kvs k0 = Some v0"
    by (auto simp: list_all_iff)
  show ?case
  proof (cases "is_composite v0")
    case False
    with k good look have "[k0] \<noteq> [] \<and> list_all good_key [k0] \<and> k = foldl full_key prefix [k0] \<and>
        walk (JObj kvs) [k0] = [v0] \<and> \<not> is_composite v0 \<and> py_str v0 = s"
      by simp
    then show ?thesis by blast
  next
    case True
    with k have "(s, k) \<in> leaf_pairs v0 (full_key prefix k0)" by simp
    from "1.IH"[OF in_kvs refl True wk this] obtain segs leaf where
      segs: "segs \<noteq> []" "list_all good_key segs" "k = foldl full_key (full_key prefix k0) segs"
        "walk v0 segs = [leaf]" "\<not> is_composite leaf" "py_str leaf = s"
      by blast
    with good look have "k0 # segs \<noteq> [] \<and> list_all good_key (k0 # segs) \<and>
        k = foldl full_key prefix (k0 # segs) \<and> walk (JObj kvs) (k0 # segs) = [leaf] \<and>
        \<not> is_composite leaf \<and> py_str leaf = s"
      by simp
    then show ?thesis by blast
  qed
next
  case (2 xs prefix)
  then show ?case by (auto simp: list_all_iff keyless_no_leaves)
qed simp_all

lemma resolvable_leaf_resolves:
  "resolvable_doc D \<Longrightarrow> (s, k) \<in> leaf_pairs D [] \<Longrightarrow>
     \<exists>leaf \<in> set (get_values_by_path D k). \<not> is_composite leaf \<and> py_str leaf = s"
proof (induction D)
  case (JArr xs)
  then show ?case by (fastforce simp: list_all_iff)
next
  case (JObj kvs)
  from well_keyed_leaf_walk[of "JObj kvs" s k "[]"] JObj.prems obtain segs leaf where
    "segs \<noteq> []" "list_all good_key segs" "k = foldl full_key [] segs"
    "walk (JObj kvs) segs = [leaf]" "\<not> is_composite leaf" "py_str leaf = s"
    by auto
  then show ?case by (simp add: split_dot_path)
qed simp_all

lemma starts_with_iff: "starts_with p k \<longleftrightarrow> (\<exists>w. k = p @ w)"
  by (induction p k rule: starts_with.induct) auto

lemma str_in_iff: "str_in p k \<longleftrightarrow> (\<exists>u w. k = u @ p @ w)"
proof (induction k)
  case Nil
  then show ?case by auto
next
  case (Cons c cs)
  show ?case
  proof
    assume "str_in p (c # cs)"
    then consider "starts_with p (c # cs)" | "str_in p cs" by auto
    then show "\<exists>u w. c # cs = u @ p @ w"
    proof cases
      case 1
      then obtain w where "c # cs = [] @ p @ w" by (auto simp: starts_with_iff)
      then show ?thesis by blast
    next
      case 2
      with Cons.IH obtain u w where "cs = u @ p @ w" by blast
      then have "c # cs = (c # u) @ p @ w" by simp
      then show ?thesis by blast
    qed
  next
    assume "\<exists>u w. c # cs = u @ p @ w"
    then obtain u w where e: "c # cs = u @ p @ w" by blast
    show "str_in p (c # cs)"
    proof (cases u)
      case Nil
      with e have "starts_with p (c # cs)" by (auto simp: starts_with_iff)
      then show ?thesis by simp
    next
      case (Cons a u')
      with e have "cs = u' @ p @ w" by simp
      with Cons.IH have "str_in p cs" by blast
      then show ?thesis by simp
    qed
  qed
qed

lemma filtered_keys_iff:
  "k \<in> set (filtered_keys keys ps) \<longleftrightarrow> k \<in> set keys \<and> (\<exists>p \<in> set ps. \<exists>u w. k = u @ p @ w)"
  by (auto simp: filtered_keys_def list_ex_iff str_in_iff)

lemma fold_filter_index_lookup:
  "distinct (map fst full) \<Longrightarrow>
   map_of (fold (\<lambda>(val, keys) acc.
             let filtered_associated_keys = filter P keys
             in if filtered_associated_keys \<noteq> [] then AList.update val filtered_associated_keys acc
                else acc) full acc) v =
           (case map_of full v of
              None \<Rightarrow> map_of acc v
            | Some ks \<Rightarrow> if filter P ks = [] then map_of acc v else Some (filter P ks))"
proof (induction full arbitrary: acc)
  case Nil
  show ?case by simp
next
  case (Cons e full)
  obtain v0 ks0 where e: "e = (v0, ks0)" by (cases e)
  from Cons.prems have d: "distinct (map fst full)" and notin: "map_of full v0 = None"
    by (auto simp: e map_of_eq_None_iff)
  show ?case
    using Cons.IH[OF d] notin
    by (auto simp: e Let_def update_conv' split: option.splits)
qed

lemma fold_filter_index_distinct:
  "distinct (map fst acc) \<Longrightarrow>
   distinct (map fst (fold (\<lambda>(val, keys) acc.
             let filtered_associated_keys = filter P keys
             in if filtered_associated_keys \<noteq> [] then AList.update val filtered_associated_keys acc
                else acc) full acc))"
proof (induction full arbitrary: acc)
  case Nil
  then show ?case by simp
next
  case (Cons e full)
  obtain v0 ks0 where e: "e = (v0, ks0)" by (cases e)
  have "distinct (map fst (AList.update v0 (filter P ks0) acc))"
    using Cons.prems by (simp add: distinct_update)
  from Cons.IH[OF this] Cons.IH[OF Cons.prems] show ?case
    by (simp add: e Let_def)
qed

lemma filter_index_props:
  assumes "distinct (map fst full)"
  shows "map_of (filter_index uks full) v =
           (case map_of full v of
              None \<Rightarrow> None
            | Some ks \<Rightarrow> if filter (\<lambda>k. k \<in> set uks) ks = [] then None
                         else Some (filter (\<lambda>k. k \<in> set uks) ks))"
    and "distinct (map fst (filter_index uks full))"
proof -
  show "map_of (filter_index uks full) v =
           (case map_of full v of
              None \<Rightarrow> None
            | Some ks \<Rightarrow> if filter (\<lambda>k. k \<in> set uks) ks = [] then None
                         else Some (filter (\<lambda>k. k \<in> set uks) ks))"
    unfolding filter_index_def
    by (subst fold_filter_index_lookup[OF assms]) (simp split: option.splits)
  show "distinct (map fst (filter_index uks full))"
    unfolding filter_index_def
    by (rule fold_filter_index_distinct) simp
qed

section \<open>Resolving the key universe and the reverse index\<close>

lemma new_searcher_json:
  assumes "new_searcher ''.json'' D = Inr s"
  shows "data s = D" "all_keys s = Some (extract_json_keys D [])"
    "all_values s = Some (extract_json_values D)" "allowed_keys_filter s = []"
    "unique_keys s = sort (remdups (extract_json_keys D []))"
    "unique_values s = Some (sort (remdups (extract_json_values D)))"
    "value_to_keys_map s = Some (build_value_to_key_map D [])"
  using assms
  by (auto simp: new_searcher_def load_data_def init_searcher_def apply_key_filter_def Let_def
      split: if_splits)

lemma dotted_keys: "extract_json_keys dotted_doc [] = [''a.b'']"
  by (simp add: dotted_doc_def full_key_def)

lemma str_int_1: "str_int 1 = ''1''"
  by code_simp

lemma dotted_index: "build_value_to_key_map dotted_doc [] = [(''1'', [''a.b''])]"
  by (simp add: dotted_doc_def eval_defs str_int_1)

text \<open>
  C1, as the claim states it, fails on \<^verbatim>\<open>{"a.b": 1}\<close>: the key path \<^verbatim>\<open>a.b\<close> is
  in the key universe, and resolving it gives the empty list, because the resolver splits
  it into the segments \<^verbatim>\<open>a\<close> and \<^verbatim>\<open>b\<close>.
\<close>

theorem dotted_key_unresolved_counterexample:
  "''a.b'' \<in> set (sort (remdups (extract_json_keys dotted_doc []))) \<and>
   get_values_by_path dotted_doc ''a.b'' = []"
  by (simp add: dotted_keys) (simp add: dotted_doc_def)

lemma keyed_items_keys: "map fst (keyed_items v p) = extract_json_keys v p"
proof (induction v p rule: keyed_items.induct)
  case (1 kvs prefix)
  have "(map fst \<circ> (\<lambda>(k, v). (full_key prefix k, v) # keyed_items v (full_key prefix k))) kv
      = (\<lambda>(k, v). full_key prefix k # extract_json_keys v (full_key prefix k)) kv"
    if "kv \<in> set kvs" for kv
  proof -
    obtain k v where kv: "kv = (k, v)" by (cases kv)
    from "1.IH"[OF that[unfolded kv] refl] show ?thesis by (simp add: kv)
  qed
  then have eq: "map (map fst \<circ> (\<lambda>(k, v). (full_key prefix k, v) # keyed_items v (full_key prefix k))) kvs
      = map (\<lambda>(k, v). full_key prefix k # extract_json_keys v (full_key prefix k)) kvs"
    by (rule map_cong[OF refl])
  show ?case
    unfolding keyed_items.simps extract_json_keys.simps map_concat map_map eq ..
next
  case (2 xs prefix)
  have "(map fst \<circ> (\<lambda>item. keyed_items item prefix)) x = (\<lambda>item. extract_json_keys item prefix) x"
    if "x \<in> set xs" for x
    using "2.IH"[OF that] by simp
  then have eq: "map (map fst \<circ> (\<lambda>item. keyed_items item prefix)) xs
      = map (\<lambda>item. extract_json_keys item prefix) xs"
    by (rule map_cong[OF refl])
  show ?case
    unfolding keyed_items.simps extract_json_keys.simps map_concat map_map eq ..
qed simp_all

lemma keyless_no_items: "keyless v \<Longrightarrow> keyed_items v p = []"
  by (induction v p rule: keyed_items.induct) (auto simp: list_all_iff)

lemma well_keyed_item_walk:
  "well_keyed v \<Longrightarrow> (k, x) \<in> set (keyed_items v p) \<Longrightarrow>
     \<exists>segs. segs \<noteq> [] \<and> list_all good_key segs \<and> k = foldl full_key p segs \<and> walk v segs = [x]"
proof (induction v p arbitrary: k rule: keyed_items.induct)
  case (1 kvs prefix)
  from "1.prems"(2) obtain k0 v0 where in_kvs: "(k0, v0) \<in> set kvs"
    and k: "(k, x) = (full_key prefix k0, v0) \<or> (k, x) \<in> set (keyed_items v0 (full_key prefix k0))"
    by auto
  from "1.prems"(1) in_kvs have good: "good_key k0" and wk: "well_keyed v0"
    and look: "map_of kvs k0 = Some v0"
    by (auto simp: list_all_iff)
  from k show ?case
  proof
    assume "(k, x) = (full_key prefix k0, v0)"
    with good look have "[k0] \<noteq> [] \<and> list_all good_key [k0] \<and> k = foldl full_key prefix [k0] \<and>
        walk (JObj kvs) [k0] = [x]"
      by simp
    then show ?thesis by blast
  next
    assume "(k, x) \<in> set (keyed_items v0 (full_key prefix k0))"
    from "1.IH"[OF in_kvs refl wk this] obtain segs where
      segs: "segs \<noteq> []" "list_all good_key segs" "k = foldl full_key (full_key prefix k0) segs"
        "walk v0 segs = [x]"
      by blast
    with good look have "k0 # segs \<noteq> [] \<and> list_all good_key (k0 # segs) \<and>
        k = foldl full_key prefix (k0 # segs) \<and> walk (JObj kvs) (k0 # segs) = [x]"
      by simp
    then show ?thesis by blast
  qed
next
  case (2 xs prefix)
  then show ?case by (auto simp: list_all_iff keyless_no_items)
qed simp_all

lemma walk_item:
  "well_keyed v \<Longrightarrow> segs \<noteq> [] \<Longrightarrow> x \<in> set (walk v segs) \<Longrightarrow>
     list_all good_key segs \<and> (foldl full_key p segs, x) \<in> set (keyed_items v p)"
proof (induction v segs arbitrary: p rule: walk.induct)
  case (2 kvs key keys)
  from "2.prems"(3) obtain v0 where look: "map_of kvs key = Some v0" and x: "x \<in> set (walk v0 keys)"
    by (cases "map_of kvs key") auto
  from look have in_kvs: "(key, v0) \<in> set kvs" by (rule map_of_SomeD)
  with "2.prems"(1) have good: "good_key key" and wk: "well_keyed v0"
    by (auto simp: list_all_iff)
  show ?case
  proof (cases keys)
    case Nil
    with x have "x = v0" by simp
    with in_kvs good Nil show ?thesis by force
  next
    case (Cons a rest)
    then have ne: "keys \<noteq> []" by simp
    from "2.IH"[OF look wk ne x, of "full_key p key"]
    have "list_all good_key keys"
      and "(foldl full_key (full_key p key) keys, x) \<in> set (keyed_items v0 (full_key p key))"
      by simp_all
    with in_kvs good show ?thesis by force
  qed
qed simp_all

lemma split_dot_nonempty: "split_dot k \<noteq> []"
  by (induction k) (auto split: list.splits)

lemma join_split_dot:
  "split_dot k = s # ts \<Longrightarrow> k = s @ concat (map (\<lambda>t. CHR ''.'' # t) ts)"
proof (induction k arbitrary: s ts)
  case Nil
  then show ?case by simp
next
  case (Cons c cs)
  show ?case
  proof (cases "c = CHR ''.''")
    case True
    with Cons.prems have s: "s = []" and ts: "split_dot cs = ts" by simp_all
    from split_dot_nonempty[of cs] ts obtain t ts' where t: "ts = t # ts'" by (cases ts) auto
    from Cons.IH[of t ts'] ts t have "cs = t @ concat (map (\<lambda>t. CHR ''.'' # t) ts')" by simp
    with s t True show ?thesis by simp
  next
    case False
    from split_dot_nonempty[of cs] obtain w ws where w: "split_dot cs = w # ws"
      by (cases "split_dot cs") auto
    with Cons.prems False have "s = c # w" "ts = ws" by simp_all
    with Cons.IH[OF w] show ?thesis by simp
  qed
qed

lemma join_split_path:
  assumes "split_dot k = segs" "list_all good_key segs"
  shows "foldl full_key [] segs = k"
proof -
  from split_dot_nonempty[of k] assms(1) obtain s ts where segs: "segs = s # ts"
    by (cases segs) auto
  with assms(2) have "good_key s" by simp
  then have s: "s \<noteq> []" by (simp add: good_key_def)
  from join_split_dot[of k s ts] assms(1) segs
  have "k = s @ concat (map (\<lambda>t. CHR ''.'' # t) ts)" by simp
  with s show ?thesis by (simp add: segs full_key_def foldl_full_key)
qed

lemma walk_scalar: "\<not> is_composite v \<Longrightarrow> segs \<noteq> [] \<Longrightarrow> walk v segs = []"
  by (cases v; cases segs) simp_all

lemma resolve_items:
  "resolvable_doc D \<Longrightarrow> set (get_values_by_path D k) = {x. (k, x) \<in> set (keyed_items D [])}"
proof (induction D)
  case (JArr xs)
  then show ?case by (auto simp: list_all_iff)
next
  case (JObj kvs)
  then have wk: "well_keyed (JObj kvs)" by simp
  show ?case
  proof (intro set_eqI iffI)
    fix x assume "x \<in> set (get_values_by_path (JObj kvs) k)"
    then have x: "x \<in> set (walk (JObj kvs) (split_dot k))" by simp
    from walk_item[OF wk split_dot_nonempty x, of "[]"]
    have g: "list_all good_key (split_dot k)"
      and i: "(foldl full_key [] (split_dot k), x) \<in> set (keyed_items (JObj kvs) [])"
      by simp_all
    from join_split_path[OF refl g] i show "x \<in> {x. (k, x) \<in> set (keyed_items (JObj kvs) [])}"
      by simp
  next
    fix x assume "x \<in> {x. (k, x) \<in> set (keyed_items (JObj kvs) [])}"
    then have "(k, x) \<in> set (keyed_items (JObj kvs) [])" by simp
    from well_keyed_item_walk[OF wk this] obtain segs where
      "segs \<noteq> []" "list_all good_key segs" "k = foldl full_key [] segs" "walk (JObj kvs) segs = [x]"
      by blast
    then show "x \<in> set (get_values_by_path (JObj kvs) k)" by (simp add: split_dot_path)
  qed
qed (simp_all add: walk_scalar split_dot_nonempty)

lemma user_items:
  "keyed_items user_doc [] =
     [(''user'', JObj [(''name'', JStr ''Alice''), (''tags'', JArr [JStr ''admin'', JStr ''vip''])]),
      (''user.name'', JStr ''Alice''),
      (''user.tags'', JArr [JStr ''admin'', JStr ''vip''])]"
  by (simp add: user_doc_def full_key_def)

text \<open>
  C1, amended. Let the document be one whose dict keys are non-empty and free of dots
  and in which no sequence below a dict contributes a key path (\<open>resolvable_doc\<close>). Then
  every key path of the key universe of the searcher loaded from it resolves to a
  non-empty list, and the values it resolves to are exactly the values that the dict
  items with this key path hold: a key that holds a composite resolves to that composite
  itself.
\<close>

theorem key_paths_resolve:
  assumes "resolvable_doc D" and "new_searcher ''.json'' D = Inr s" and "k \<in> set (unique_keys s)"
  shows "get_values_by_path (data s) k \<noteq> [] \<and>
         set (get_values_by_path (data s) k) = {x. (k, x) \<in> set (keyed_items D [])}"
proof -
  from new_searcher_json[OF assms(2)] assms(3)
  have "k \<in> set (extract_json_keys D [])" and d: "data s = D" by simp_all
  then have "k \<in> fst ` set (keyed_items D [])"
    by (simp only: keyed_items_keys[symmetric] set_map)
  then obtain x where "(k, x) \<in> set (keyed_items D [])" by auto
  with resolve_items[OF assms(1), of k] have "x \<in> set (get_values_by_path D k)" by simp
  then have "get_values_by_path D k \<noteq> []" by auto
  with resolve_items[OF assms(1), of k] d show ?thesis by simp
qed

text \<open>
  Outside \<open>resolvable_doc\<close>: the flattener and the indexer recurse into a sequence
  wherever it occurs, the resolver only at the root. For a dict inside a sequence below a
  dict, the key path is flattened and indexed, and its walk ends at the sequence with the
  empty result.
\<close>

lemma nested_sequence_unresolved:
  "extract_json_keys nested_doc [] = [''a'', ''a.b''] \<and>
   build_value_to_key_map nested_doc [] = [(''1'', [''a.b''])] \<and>
   get_values_by_path nested_doc ''a.b'' = [] \<and>
   \<not> resolvable_doc nested_doc"
  by (simp add: nested_doc_def eval_defs str_int_1)

lemma user_doc_resolvable: "resolvable_doc user_doc"
  by (simp add: user_doc_def good_key_def)

theorem key_paths_resolve_witness:
  "resolvable_doc user_doc \<and> new_searcher ''.json'' user_doc = Inr user_searcher \<and>
   ''user'' \<in> set (unique_keys user_searcher) \<and>
   get_values_by_path (data user_searcher) ''user'' \<noteq> [] \<and>
   set (get_values_by_path (data user_searcher) ''user'') =
     {JObj [(''name'', JStr ''Alice''), (''tags'', JArr [JStr ''admin'', JStr ''vip''])]}"
proof -
  have h: "''user'' \<in> set (unique_keys user_searcher)" by (simp add: user_searcher_def)
  have "{x. (''user'', x) \<in> set (keyed_items user_doc [])} =
     {JObj [(''name'', JStr ''Alice''), (''tags'', JArr [JStr ''admin'', JStr ''vip''])]}"
    by (auto simp: user_items)
  with key_paths_resolve[OF user_doc_resolvable new_searcher_user_doc h]
    user_doc_resolvable new_searcher_user_doc h
  show ?thesis by simp
qed

text \<open>
  C3, as the claim states it, fails on \<^verbatim>\<open>{"a.b": 1}\<close>: the reverse index lists the
  key path \<^verbatim>\<open>a.b\<close> for the scalar \<^verbatim>\<open>1\<close>, and resolving that path gives the empty
  list.
\<close>

theorem dotted_index_unresolved_counterexample:
  "map_of (build_value_to_key_map dotted_doc []) ''1'' = Some [''a.b''] \<and>
   get_values_by_path dotted_doc ''a.b'' = []"
  by (simp add: dotted_index) (simp add: dotted_doc_def)

text \<open>
  C3, amended. For a document as in C1 (\<open>resolvable_doc\<close>), every scalar \<open>s\<close> of the
  reverse index and every key path \<open>k\<close> listed for it: resolving \<open>k\<close> yields a
  non-composite value whose \<^verbatim>\<open>str\<close> is \<open>s\<close>.
\<close>

theorem index_entries_resolve:
  assumes "resolvable_doc D" and "map_of (build_value_to_key_map D []) s = Some ks"
    and "k \<in> set ks"
  shows "\<exists>leaf \<in> set (get_values_by_path D k). \<not> is_composite leaf \<and> py_str leaf = s"
proof -
  from assms(2) have "(s, ks) \<in> set (build_value_to_key_map D [])" by (rule map_of_SomeD)
  with assms(3) have "(s, k) \<in> index_pairs (build_value_to_key_map D [])"
    by (auto simp: index_pairs_def)
  then have "(s, k) \<in> leaf_pairs D []" by (simp add: build_props)
  with resolvable_leaf_resolves[OF assms(1)] show ?thesis by simp
qed

lemma user_index: "build_value_to_key_map user_doc [] = [(''Alice'', [''user.name''])]"
  by (simp add: user_doc_def eval_defs)

theorem index_entries_resolve_witness:
  "resolvable_doc user_doc \<and>
   map_of (build_value_to_key_map user_doc []) ''Alice'' = Some [''user.name''] \<and>
   ''user.name'' \<in> set [''user.name''] \<and>
   (\<exists>leaf \<in> set (get_values_by_path user_doc ''user.name'').
      \<not> is_composite leaf \<and> py_str leaf = ''Alice'')"
proof -
  have h2: "map_of (build_value_to_key_map user_doc []) ''Alice'' = Some [''user.name'']"
    by (simp add: user_index)
  have h3: "''user.name'' \<in> set [''user.name'']" by simp
  from index_entries_resolve[OF user_doc_resolvable h2 h3] user_doc_resolvable h2 h3
  show ?thesis by blast
qed

section \<open>The key paths of the reverse index\<close>


lemma build_distinct: "distinct (map fst (build_value_to_key_map D p))"
  by (simp add: build_props)












section \<open>What the key filter retains\<close>

text \<open>
  C8. On a searcher whose traversal results exist, setting a pattern list succeeds, and
  a key path is in the resulting key universe exactly when it is one of the traversal's
  key paths and either the pattern list is empty or some pattern occurs in it as a
  contiguous substring, compared character by character. With an empty pattern list the
  reverse index is the full one. With a non-empty one, the entry of each scalar is its
  full entry restricted to the retained key universe, a scalar for which nothing is left
  has no entry, and the value universe is the sorted list of the scalars that still have
  one.
\<close>

theorem key_filter_retains:
  assumes "all_keys s = Some keys" and "all_values s = Some vals"
  shows "\<exists>s' m. set_filter ps s = Inr s' \<and> value_to_keys_map s' = Some m \<and>
     (\<forall>k. k \<in> set (unique_keys s') \<longleftrightarrow>
            k \<in> set keys \<and> (ps = [] \<or> (\<exists>p \<in> set ps. \<exists>u w. k = u @ p @ w))) \<and>
     (ps = [] \<longrightarrow> m = build_value_to_key_map (data s) []) \<and>
     (ps \<noteq> [] \<longrightarrow>
        (\<forall>v. map_of m v =
               (case map_of (build_value_to_key_map (data s) []) v of
                  None \<Rightarrow> None
                | Some ks \<Rightarrow>
                    if set ks \<inter> set (unique_keys s') = {} then None
                    else Some (filter (\<lambda>k. k \<in> set (unique_keys s')) ks))) \<and>
        distinct (map fst m) \<and> unique_values s' = Some (sort (map fst m)))"
proof (cases "ps = []")
  case True
  from assms
  have "set_filter ps s =
          Inr (s\<lparr>allowed_keys_filter := [], unique_keys := sort (remdups keys),
                  unique_values := Some (sort (remdups vals)),
                  value_to_keys_map := Some (build_value_to_key_map (data s) [])\<rparr>)"
    by (simp add: True set_filter_def apply_key_filter_def)
  with True show ?thesis by simp
next
  case False
  let ?uks = "sort (remdups (filtered_keys keys ps))"
  let ?full = "build_value_to_key_map (data s) []"
  let ?m = "filter_index ?uks ?full"
  define s' where "s' = s\<lparr>allowed_keys_filter := ps, unique_keys := ?uks,
                  value_to_keys_map := Some ?m, unique_values := Some (sort (map fst ?m))\<rparr>"
  have sf: "set_filter ps s = Inr s'"
    using assms False by (simp add: s'_def set_filter_def apply_key_filter_def Let_def)
  have uk: "unique_keys s' = ?uks" and vm: "value_to_keys_map s' = Some ?m"
    and uv: "unique_values s' = Some (sort (map fst ?m))"
    by (simp_all add: s'_def)
  have keys: "\<forall>k. k \<in> set (unique_keys s') \<longleftrightarrow>
      k \<in> set keys \<and> (ps = [] \<or> (\<exists>p \<in> set ps. \<exists>u w. k = u @ p @ w))"
    unfolding uk using False by (simp add: filtered_keys_iff)
  have entry: "map_of ?m v =
               (case map_of ?full v of
                  None \<Rightarrow> None
                | Some ks \<Rightarrow>
                    if set ks \<inter> set (unique_keys s') = {} then None
                    else Some (filter (\<lambda>k. k \<in> set (unique_keys s')) ks))" for v
  proof (cases "map_of ?full v")
    case None
    then show ?thesis by (simp add: filter_index_props(1)[OF build_distinct])
  next
    case (Some ks)
    have "filter (\<lambda>k. k \<in> set ?uks) ks = [] \<longleftrightarrow> set ks \<inter> set ?uks = {}"
      by (auto simp: filter_empty_conv)
    with Some show ?thesis
      unfolding uk by (simp add: filter_index_props(1)[OF build_distinct])
  qed
  have dist: "distinct (map fst ?m)"
    by (rule filter_index_props(2)[OF build_distinct])
  from sf vm keys entry dist uv False show ?thesis by blast
qed

theorem key_filter_retains_witness:
  "all_keys user_searcher = Some [''user'', ''user.name'', ''user.tags''] \<and>
   all_values user_searcher = Some [''Alice''] \<and>
   (\<exists>s' m. set_filter [''tags''] user_searcher = Inr s' \<and> value_to_keys_map s' = Some m \<and>
      ''user.tags'' \<in> set (unique_keys s') \<and> distinct (map fst m) \<and>
      unique_values s' = Some (sort (map fst m)))"
proof -
  have h1: "all_keys user_searcher = Some [''user'', ''user.name'', ''user.tags'']"
    and h2: "all_values user_searcher = Some [''Alice'']"
    by (simp_all add: user_searcher_def)
  have ne: "[''tags''] \<noteq> ([] :: string list)" by simp
  from key_filter_retains[OF h1 h2, of "[''tags'']"] obtain s' m where
    a: "set_filter [''tags''] user_searcher = Inr s'" and b: "value_to_keys_map s' = Some m"
    and c: "\<forall>k. k \<in> set (unique_keys s') \<longleftrightarrow>
            k \<in> set [''user'', ''user.name'', ''user.tags''] \<and>
            ([''tags''] = [] \<or> (\<exists>p \<in> set [''tags'']. \<exists>u w. k = u @ p @ w))"
    and d: "[''tags''] \<noteq> [] \<longrightarrow>
        (\<forall>v. map_of m v =
               (case map_of (build_value_to_key_map (data user_searcher) []) v of
                  None \<Rightarrow> None
                | Some ks \<Rightarrow>
                    if set ks \<inter> set (unique_keys s') = {} then None
                    else Some (filter (\<lambda>k. k \<in> set (unique_keys s')) ks))) \<and>
        distinct (map fst m) \<and> unique_values s' = Some (sort (map fst m))"
    by blast
  from d ne have e: "distinct (map fst m)" "unique_values s' = Some (sort (map fst m))"
    by blast+
  have "''user.tags'' = ''user.'' @ ''tags'' @ []" by simp
  then have "\<exists>p \<in> set [''tags'']. \<exists>u w. ''user.tags'' = u @ p @ w" by (simp only: list.set) blast
  moreover have "''user.tags'' \<in> set [''user'', ''user.name'', ''user.tags'']" by simp
  ultimately have "''user.tags'' \<in> set (unique_keys s')" using c by blast
  with a b e h1 h2 show ?thesis by blast
qed

section \<open>CSV sources\<close>

lemma people_values: "extract_json_values people_csv = [''Alice'', ''30'', ''Bob'', ''30'']"
  by (simp add: people_csv_def)

text \<open>
  C5, as the claim states it, fails on a CSV file with two records: the records have the
  field values \<^verbatim>\<open>Alice\<close>, \<^verbatim>\<open>30\<close>, \<^verbatim>\<open>Bob\<close>, \<^verbatim>\<open>30\<close>, and the value universe of
  the searcher loaded from it is empty.
\<close>

theorem csv_value_universe_empty_counterexample:
  "new_searcher ''.csv'' people_csv = Inr people_searcher \<and>
   unique_values people_searcher = Some [] \<and>
   extract_json_values people_csv = [''Alice'', ''30'', ''Bob'', ''30'']"
  by (simp add: new_searcher_people people_values) (simp add: people_searcher_def)

lemma flat_record_values:
  "list_all (\<lambda>(k, v). \<not> is_composite v) kvs \<Longrightarrow>
     extract_json_values (JObj kvs) = map (\<lambda>(k, v). py_str v) kvs"
  by (induction kvs) auto

lemma csv_row_values: "csv_row r \<Longrightarrow> set (extract_json_values r) = row_values r"
proof (cases r)
  case (JObj kvs)
  assume "csv_row r"
  with JObj have "list_all (\<lambda>(k, v). \<not> is_composite v) kvs" by simp
  from flat_record_values[OF this] JObj show ?thesis by simp
qed simp_all

lemma csv_doc_values:
  assumes "csv_doc (JArr rows)"
  shows "set (extract_json_values (JArr rows)) = (\<Union>row \<in> set rows. row_values row)"
  using assms by (auto simp: list_all_iff csv_row_values)

lemma csv_doc_header:
  assumes "csv_doc (JArr rows)"
  shows "\<exists>ks. csv_header (JArr rows) = Inr ks"
proof -
  from assms obtain r rest where rows: "rows = r # rest" and "csv_row r"
    by (cases rows) auto
  then obtain kvs where "r = JObj kvs" by (cases r) auto
  with rows show ?thesis by simp
qed

text \<open>
  C5, amended. For every CSV document with at least one record, loading succeeds and the
  value universe is empty (\<^verbatim>\<open>_load_data\<close> sets \<^verbatim>\<open>_all_values\<close> to the empty list for
  CSV sources); the record field values appear only in the reverse index, whose scalars
  are exactly the stringified field values of all the records.
\<close>

theorem csv_values_only_in_index:
  assumes "csv_doc (JArr rows)"
  shows "\<exists>s m. new_searcher ''.csv'' (JArr rows) = Inr s \<and> unique_values s = Some [] \<and>
           value_to_keys_map s = Some m \<and>
           fst ` set m = (\<Union>row \<in> set rows. row_values row)"
proof -
  from assms have t: "truthy (JArr rows)" by simp
  from csv_doc_header[OF assms] obtain ks where ks: "csv_header (JArr rows) = Inr ks" by blast
  let ?m = "build_value_to_key_map (JArr rows) []"
  define s where "s = init_searcher\<lparr>data := JArr rows, all_keys := Some ks, all_values := Some [],
       unique_keys := sort (remdups ks), unique_values := Some [],
       value_to_keys_map := Some ?m\<rparr>"
  have "new_searcher ''.csv'' (JArr rows) = Inr s"
    using t ks by (simp add: new_searcher_def load_data_def apply_key_filter_def init_searcher_def s_def)
  moreover have "unique_values s = Some []" "value_to_keys_map s = Some ?m"
    by (simp_all add: s_def)
  moreover have "fst ` set ?m = (\<Union>row \<in> set rows. row_values row)"
    using build_props[of "JArr rows" "[]"] csv_doc_values[OF assms] by simp
  ultimately show ?thesis by blast
qed

lemma people_csv_doc: "csv_doc people_csv"
  by (simp add: people_csv_def)

theorem csv_values_only_in_index_witness:
  "csv_doc people_csv \<and>
   (\<exists>s m. new_searcher ''.csv'' people_csv = Inr s \<and> unique_values s = Some [] \<and>
      value_to_keys_map s = Some m \<and> fst ` set m = {''Alice'', ''30'', ''Bob''})"
proof -
  have c: "csv_doc (JArr [JObj [(''name'', JStr ''Alice''), (''age'', JStr ''30'')],
           JObj [(''name'', JStr ''Bob''), (''age'', JStr ''30'')]])"
    by simp
  have v: "(\<Union>row \<in> set [JObj [(''name'', JStr ''Alice''), (''age'', JStr ''30'')],
           JObj [(''name'', JStr ''Bob''), (''age'', JStr ''30'')]]. row_values row)
        = {''Alice'', ''30'', ''Bob''}"
    by auto
  from csv_values_only_in_index[OF c] v people_csv_doc show ?thesis
    unfolding people_csv_def by simp
qed

section \<open>Ranking\<close>














end
